theory Spec2Isabelle
  imports Main "HOL-Library.Sublist"
begin

section \<open>Wikipedia link highlighter: a shallow embedding of the userscripts\<close>

text \<open>
  The repository holds several generations of one userscript. Each definition below
  names the file and the function it is translated from. Offsets into a text are
  natural numbers, times are integers (milliseconds, as \<^verbatim>\<open>Date.now()\<close> returns them),
  JavaScript \<^verbatim>\<open>Set\<close>s and \<^verbatim>\<open>Map\<close>s, which iterate in insertion order, are lists
  without repeated keys, and plain objects used as dictionaries are maps.
\<close>

subsection \<open>Overlap filtering of matches (\<^verbatim>\<open>highlightTextNode\<close>)\<close>

text \<open>
  \<^verbatim>\<open>src/TS14(imp).js\<close>, lines 388-409 (the same loop stands in
  \<^verbatim>\<open>src/unnamed/part_002\<close>, lines 310-330). A match is the object
  \<^verbatim>\<open>{start: match.index, end: match.index + match[0].length, text: match[0]}\<close>.
\<close>

record match =
  m_start :: nat
  m_end :: nat
  m_text :: string

text \<open>
  \<^verbatim>\<open>validMatches.some(m => (match.start >= m.start && match.start < m.end) ||
  (match.end > m.start && match.end <= m.end))\<close>
\<close>

definition overlaps :: "match \<Rightarrow> match list \<Rightarrow> bool" where
  "overlaps mt validMatches =
     list_ex (\<lambda>m. (m_start mt \<ge> m_start m \<and> m_start mt < m_end m) \<or>
                  (m_end mt > m_start m \<and> m_end mt \<le> m_end m)) validMatches"

text \<open>
  \<^verbatim>\<open>for (const match of matches) { ... if (!overlaps) validMatches.push(match); }\<close>
\<close>

fun acceptLoop :: "match list \<Rightarrow> match list \<Rightarrow> match list" where
  "acceptLoop validMatches [] = validMatches"
| "acceptLoop validMatches (mt # rest) =
     acceptLoop (if overlaps mt validMatches then validMatches else validMatches @ [mt]) rest"

text \<open>
  \<^verbatim>\<open>matches.sort((a, b) => a.start - b.start)\<close> is a stable sort on the start offset,
  followed by the loop from an empty \<^verbatim>\<open>validMatches\<close>.
\<close>

definition validMatchesOf :: "match list \<Rightarrow> match list" where
  "validMatchesOf matches = acceptLoop [] (sort_key m_start matches)"

subsection \<open>Strings\<close>

text \<open>
  Texts are strings of ASCII characters. On them \<^verbatim>\<open>toLowerCase()\<close> maps \<^verbatim>\<open>A-Z\<close> to
  \<^verbatim>\<open>a-z\<close> and leaves every other character alone, \<^verbatim>\<open>\d\<close> is \<^verbatim>\<open>0-9\<close>, \<^verbatim>\<open>\w\<close> is
  \<^verbatim>\<open>[A-Za-z0-9_]\<close>, and \<^verbatim>\<open>trim()\<close> removes tab, line feed, vertical tab, form feed,
  carriage return and space from both ends. Case mapping of characters outside ASCII is
  not modelled.
\<close>

definition code :: "char \<Rightarrow> nat" where
  "code c = of_char c"

definition isUpper :: "char \<Rightarrow> bool" where
  "isUpper c = (65 \<le> code c \<and> code c \<le> 90)"

definition isLower :: "char \<Rightarrow> bool" where
  "isLower c = (97 \<le> code c \<and> code c \<le> 122)"

definition isDigit :: "char \<Rightarrow> bool" where
  "isDigit c = (48 \<le> code c \<and> code c \<le> 57)"

definition isWordChar :: "char \<Rightarrow> bool" where
  "isWordChar c = (isUpper c \<or> isLower c \<or> isDigit c \<or> code c = 95)"

definition isSpace :: "char \<Rightarrow> bool" where
  "isSpace c = (code c \<in> {9, 10, 11, 12, 13, 32})"

definition toLowerChar :: "char \<Rightarrow> char" where
  "toLowerChar c = (if isUpper c then char_of (code c + 32) else c)"

definition toLowerCase :: "string \<Rightarrow> string" where
  "toLowerCase s = map toLowerChar s"

definition trim :: "string \<Rightarrow> string" where
  "trim s = rev (dropWhile isSpace (rev (dropWhile isSpace s)))"

text \<open>\<^verbatim>\<open>/^\d+$/.test(s)\<close>\<close>

definition allDigits :: "string \<Rightarrow> bool" where
  "allDigits s = (s \<noteq> [] \<and> list_all isDigit s)"

text \<open>\<^verbatim>\<open>s.includes(t)\<close>: \<^verbatim>\<open>t\<close> occurs in \<^verbatim>\<open>s\<close> as a contiguous substring.\<close>

fun includesStr :: "string \<Rightarrow> string \<Rightarrow> bool" where
  "includesStr [] t = (t = [])"
| "includesStr (c # cs) t = (prefix t (c # cs) \<or> includesStr cs t)"

text \<open>\<^verbatim>\<open>set.add(x)\<close> on a \<^verbatim>\<open>Set\<close> kept in insertion order.\<close>

definition setAdd :: "'a list \<Rightarrow> 'a \<Rightarrow> 'a list" where
  "setAdd xs x = (if x \<in> set xs then xs else xs @ [x])"

text \<open>
  \<^verbatim>\<open>for (let i = 0; i < list.length; i += size) { ... list.slice(i, i + size) ... }\<close>:
  the slices handed to the loop body, in order. With a size of 0 the index never
  advances and the loop does not end; the model returns \<open>None\<close> there.
\<close>

function slices :: "nat \<Rightarrow> nat \<Rightarrow> 'a list \<Rightarrow> 'a list list option" where
  "slices sz i xs =
     (if i < length xs then
        (if sz = 0 then None
         else map_option ((#) (take sz (drop i xs))) (slices sz (i + sz) xs))
      else Some [])"
  by pat_completeness auto
termination
  by (relation "measure (\<lambda>(sz, i, xs). length xs - i)") auto

declare slices.simps [simp del]

subsection \<open>Exclusion filter and extraction (\<^verbatim>\<open>part_002\<close>, first script)\<close>

text \<open>
  \<^verbatim>\<open>src/unnamed/part_002\<close>, lines 46-67, \<^verbatim>\<open>shouldExclude(word)\<close>; the global
  \<^verbatim>\<open>currentArticle\<close> is the first argument.
\<close>

definition exclude :: "string list" where
  "exclude = [''january'', ''february'', ''march'', ''april'', ''may'', ''june'',
     ''july'', ''august'', ''september'', ''october'', ''november'', ''december'',
     ''monday'', ''tuesday'', ''wednesday'', ''thursday'', ''friday'', ''saturday'', ''sunday'',
     ''the'', ''and'', ''or'', ''but'', ''with'', ''from'', ''this'', ''that'', ''these'', ''those'',
     ''wikipedia'', ''retrieved'', ''archived'', ''original'', ''external'', ''references'']"

definition shouldExclude :: "string \<Rightarrow> string \<Rightarrow> bool" where
  "shouldExclude currentArticle word =
     (let lower = toLowerCase word; articleLower = toLowerCase currentArticle in
      if lower = articleLower then True
      else if includesStr articleLower lower \<or> includesStr lower articleLower then True
      else if lower \<in> set exclude then True
      else if allDigits word then True
      else False)"

text \<open>
  Lines 122-144, \<^verbatim>\<open>extractWords(text)\<close>. The three arguments after the title are the
  arrays that \<^verbatim>\<open>text.match(...)\<close> returns for the one-, two- and three-word patterns
  (\<^verbatim>\<open>null\<close> read as the empty array); each match is added to the \<^verbatim>\<open>Set\<close>
  \<^verbatim>\<open>words\<close> unless \<^verbatim>\<open>shouldExclude\<close> holds of it.
\<close>

definition addWords :: "string \<Rightarrow> string list \<Rightarrow> string list \<Rightarrow> string list" where
  "addWords currentArticle words found =
     fold (\<lambda>w ws. if \<not> shouldExclude currentArticle w then setAdd ws w else ws) found words"

definition extractWords :: "string \<Rightarrow> string list \<Rightarrow> string list \<Rightarrow> string list \<Rightarrow> string list" where
  "extractWords currentArticle singles pairs triples =
     addWords currentArticle (addWords currentArticle (addWords currentArticle [] singles) pairs) triples"

text \<open>
  Lines 205-217 of \<^verbatim>\<open>analyzeArticle\<close>: the candidate words are cut into batches of
  \<^verbatim>\<open>CONFIG.batchSize\<close> and each batch is one call of \<^verbatim>\<open>checkTermsExist\<close>. The
  result is the list of requests, each the list of titles it carries.
\<close>

definition batchSize_002 :: nat where
  "batchSize_002 = 15"

definition verificationRequests :: "string \<Rightarrow> string list \<Rightarrow> string list \<Rightarrow> string list \<Rightarrow> string list list option" where
  "verificationRequests currentArticle singles pairs triples =
     slices batchSize_002 0 (extractWords currentArticle singles pairs triples)"

subsection \<open>Candidate collection (\<^verbatim>\<open>part_000\<close>)\<close>

text \<open>
  \<^verbatim>\<open>src/unnamed/part_000\<close>, lines 41-46 and 73-105. \<open>nodeMatches\<close> holds, for each
  collected text node, the array \<^verbatim>\<open>n.textContent.match(regex)\<close> (\<^verbatim>\<open>null\<close> read as
  the empty array); \<open>linkTexts\<close> holds the \<^verbatim>\<open>textContent\<close> of every \<^verbatim>\<open>a\<close> element.
\<close>

definition API_BATCH :: nat where
  "API_BATCH = 40"

definition blacklist :: "string list" where
  "blacklist = [''the'', ''and'', ''for'', ''are'', ''was'', ''were'', ''with'', ''from'', ''this'',
     ''that'', ''these'', ''those'', ''about'', ''which'', ''their'', ''there'', ''other'', ''also'',
     ''than'', ''then'', ''such'', ''have'', ''into'', ''after'', ''before'', ''when'', ''what'',
     ''where'', ''who'', ''why'', ''how'', ''one'', ''two'', ''three'', ''said'']"

definition addCandidate :: "string \<Rightarrow> string list \<Rightarrow> string list" where
  "addCandidate m candidates =
     (let t = trim m in
      if t = [] then candidates
      else if allDigits t then candidates
      else if toLowerCase t \<in> set blacklist then candidates
      else setAdd candidates t)"

definition collectCandidates :: "string list list \<Rightarrow> string list" where
  "collectCandidates nodeMatches = fold (\<lambda>ms cs. fold addCandidate ms cs) nodeMatches []"

definition toCheck :: "string list list \<Rightarrow> string list \<Rightarrow> string list" where
  "toCheck nodeMatches linkTexts =
     (let linkedTexts = map trim linkTexts in
      filter (\<lambda>term. term \<notin> set linkedTexts) (collectCandidates nodeMatches))"

text \<open>
  One request per slice; the script stops before the loop when \<^verbatim>\<open>toCheck\<close> is empty
  (\<^verbatim>\<open>if (!toCheck.length) return\<close>), which sends no request as well.
\<close>

definition apiRequests :: "string list list \<Rightarrow> string list \<Rightarrow> string list list option" where
  "apiRequests nodeMatches linkTexts = slices API_BATCH 0 (toCheck nodeMatches linkTexts)"

subsection \<open>Session state of \<^verbatim>\<open>TS14(imp).js\<close>\<close>










definition mapHas :: "('k \<times> 'v) list \<Rightarrow> 'k \<Rightarrow> bool" where
  "mapHas m k = (k \<in> fst ` set m)"

subsection \<open>Cache loading and cleaning (\<^verbatim>\<open>TS14(imp).js\<close>)\<close>



subsection \<open>Rate limiting (\<^verbatim>\<open>TS14(imp).js\<close>)\<close>



subsection \<open>Registry requests (\<^verbatim>\<open>TS14(imp).js\<close>)\<close>

text \<open>
  What a request meets is an input of the model: \<open>Inl e\<close> when \<^verbatim>\<open>fetch\<close> rejects, the
  body is not JSON or \<^verbatim>\<open>data.query.pages\<close> is missing (each raises inside the
  \<^verbatim>\<open>try\<close>), \<open>Inr pages\<close> otherwise, with the pages in the order of
  \<^verbatim>\<open>Object.values(data.query.pages)\<close>. A page has a \<^verbatim>\<open>title\<close> and, when it exists, a
  \<^verbatim>\<open>pageid\<close>; \<^verbatim>\<open>if (page.pageid)\<close> holds of a page id other than 0.
\<close>

record page =
  p_title :: string
  p_pageid :: "nat option"

type_synonym fetched = "string + page list"

definition hasPageid :: "page \<Rightarrow> bool" where
  "hasPageid pg = (case p_pageid pg of None \<Rightarrow> False | Some n \<Rightarrow> n \<noteq> 0)"











subsection \<open>Batch verification of the editor helper (\<^verbatim>\<open>TS13.js\<close>, first script)\<close>

text \<open>
  \<^verbatim>\<open>src/TS13.js\<close>, lines 20-22: the globals \<^verbatim>\<open>wikiTerms\<close> (a \<^verbatim>\<open>Set\<close>) and, for the
  model, the lines written with \<^verbatim>\<open>console.error\<close>. A candidate is the object
  \<^verbatim>\<open>{word, position}\<close> of \<^verbatim>\<open>findLinkableWords\<close>.
\<close>

record helperState =
  h_wikiTerms :: "string list"
  h_errors :: "string list"

record item =
  word :: string
  position :: nat

text \<open>
  Lines 84-89, the body of \<^verbatim>\<open>Object.values(data.query.pages).forEach\<close>, with the
  \<^verbatim>\<open>Set\<close> \<^verbatim>\<open>existing\<close> as the first component.
\<close>

definition notePage :: "page \<Rightarrow> string list \<times> helperState \<Rightarrow> string list \<times> helperState" where
  "notePage pg acc =
     (let existing = fst acc; s = snd acc in
      if hasPageid pg then
        (setAdd existing (toLowerCase (p_title pg)),
         s\<lparr>h_wikiTerms := setAdd (h_wikiTerms s) (toLowerCase (p_title pg))\<rparr>)
      else acc)"

text \<open>
  Lines 73-96, \<^verbatim>\<open>checkWikipediaPages(terms)\<close>; the first argument is what the request
  meets (\<open>Inl e\<close>: \<^verbatim>\<open>fetch\<close> rejects, the body is not JSON, or \<^verbatim>\<open>data.query.pages\<close> is
  missing). With no terms the function returns before any request.
\<close>

definition checkWikipediaPages :: "fetched \<Rightarrow> helperState \<Rightarrow> string list \<Rightarrow> string list \<times> helperState" where
  "checkWikipediaPages outcome s terms =
     (if terms = [] then ([], s)
      else
        (case outcome of
           Inr pages \<Rightarrow> fold notePage pages ([], s)
         | Inl e \<Rightarrow> ([], s\<lparr>h_errors := h_errors s @ [''Error checking pages:'' @ e]\<rparr>)))"

text \<open>
  Lines 282-297, the batch loop of \<^verbatim>\<open>analyzeText\<close>. Each round is a batch (a slice of
  \<^verbatim>\<open>CONFIG.batchSize\<close> candidates) with what its request meets; the accumulator is the
  array \<^verbatim>\<open>suggestions\<close> and the state.
\<close>

fun analyzeRounds :: "(item list \<times> fetched) list \<Rightarrow> item list \<times> helperState \<Rightarrow> item list \<times> helperState" where
  "analyzeRounds [] acc = acc"
| "analyzeRounds ((batch, outcome) # rest) acc =
     (let suggestions = fst acc;
          (existing, s) = checkWikipediaPages outcome (snd acc) (map word batch) in
      analyzeRounds rest
        (suggestions @ filter (\<lambda>item. toLowerCase (word item) \<in> set existing) batch, s))"

text \<open>Lines 299-302: the suggestions shown, sorted by position.\<close>

definition analyzeText :: "(item list \<times> fetched) list \<Rightarrow> helperState \<Rightarrow> item list \<times> helperState" where
  "analyzeText rounds s =
     (let (suggestions, s') = analyzeRounds rounds ([], s) in
      (sort_key position suggestions, s'))"

subsection \<open>Matching \<^verbatim>\<open>\b(t1|...|tn)\b\<close>\<close>

text \<open>
  Every pattern the annotators build has this shape, with the terms escaped so that they
  match literally. A scan state is the text that remains, the offset \<open>i\<close> of its first
  character, and whether the character before it is a word character (\<open>pw\<close>; false at
  the start of the text). \<^verbatim>\<open>\b\<close> holds where exactly one of the two neighbours is a
  word character. Under the flag \<^verbatim>\<open>i\<close> two characters match when their upper-case
  forms are equal.
\<close>

definition toUpperChar :: "char \<Rightarrow> char" where
  "toUpperChar c = (if isLower c then char_of (code c - 32) else c)"

definition headIsWord :: "string \<Rightarrow> bool" where
  "headIsWord s = (case s of [] \<Rightarrow> False | c # cs \<Rightarrow> isWordChar c)"

definition literalHere :: "bool \<Rightarrow> string \<Rightarrow> string \<Rightarrow> bool" where
  "literalHere ignoreCase t rest =
     (length t \<le> length rest \<and>
      (if ignoreCase then map toUpperChar (take (length t) rest) = map toUpperChar t
       else take (length t) rest = t))"

text \<open>Whether the last character consumed (or, for an empty match, the one before) is a word character.\<close>

definition wordBefore :: "bool \<Rightarrow> string \<Rightarrow> bool" where
  "wordBefore pw consumed = (if consumed = [] then pw else isWordChar (last consumed))"

text \<open>
  The alternative that matches at this place, if any: the first term, in the order of
  the alternation, that is found here and is followed by a \<^verbatim>\<open>\b\<close>.
\<close>

definition altHere :: "bool \<Rightarrow> string list \<Rightarrow> bool \<Rightarrow> string \<Rightarrow> string option" where
  "altHere ignoreCase terms pw rest =
     (if pw = headIsWord rest then None
      else find (\<lambda>t. literalHere ignoreCase t rest \<and>
                     wordBefore pw (take (length t) rest) \<noteq> headIsWord (drop (length t) rest))
             terms)"

text \<open>
  \<^verbatim>\<open>while ((match = regex.exec(text)) !== null) { ... }\<close> with a global pattern whose
  \<^verbatim>\<open>lastIndex\<close> the body leaves alone: the matches found, each as
  \<^verbatim>\<open>(match.index, match[0])\<close>. After a match the search goes on behind it. An empty
  match leaves \<^verbatim>\<open>lastIndex\<close> where it is, so the same match is found again and the
  loop does not end: the result is \<open>None\<close>.
\<close>

function execAll :: "bool \<Rightarrow> string list \<Rightarrow> bool \<Rightarrow> nat \<Rightarrow> string \<Rightarrow> (nat \<times> string) list option" where
  "execAll ignoreCase terms pw i rest =
     (case altHere ignoreCase terms pw rest of
        Some t \<Rightarrow>
          (if t = [] then None
           else map_option ((#) (i, take (length t) rest))
                  (execAll ignoreCase terms (isWordChar (last (take (length t) rest)))
                     (i + length t) (drop (length t) rest)))
      | None \<Rightarrow>
          (case rest of
             [] \<Rightarrow> Some []
           | c # cs \<Rightarrow> execAll ignoreCase terms (isWordChar c) (Suc i) cs))"
  by pat_completeness auto
termination
proof (relation "measure (\<lambda>(ignoreCase, terms, pw, i, rest). length rest)")
  show "wf (measure (\<lambda>(ignoreCase, terms, pw, i, rest). length rest))"
    by simp
next
  fix ignoreCase :: bool and terms :: "string list" and pw :: bool and i :: nat
    and rest t :: string
  assume "altHere ignoreCase terms pw rest = Some t" and "t \<noteq> []"
  then have "literalHere ignoreCase t rest"
    by (auto simp: altHere_def find_Some_iff split: if_splits)
  then have "length t \<le> length rest"
    by (simp add: literalHere_def)
  with \<open>t \<noteq> []\<close> have "length (drop (length t) rest) < length rest"
    by (cases t) auto
  then show "((ignoreCase, terms, isWordChar (last (take (length t) rest)), i + length t,
               drop (length t) rest), (ignoreCase, terms, pw, i, rest))
             \<in> measure (\<lambda>(ignoreCase, terms, pw, i, rest). length rest)"
    by simp
next
  fix ignoreCase :: bool and terms :: "string list" and pw :: bool and i :: nat
    and rest cs :: string and c :: char
  assume "rest = c # cs"
  then show "((ignoreCase, terms, isWordChar c, Suc i, cs), (ignoreCase, terms, pw, i, rest))
             \<in> measure (\<lambda>(ignoreCase, terms, pw, i, rest). length rest)"
    by simp
qed

declare execAll.simps [simp del]


definition slice :: "string \<Rightarrow> nat \<Rightarrow> nat \<Rightarrow> string" where
  "slice text a b = take (b - a) (drop a text)"

subsection \<open>Replacing matches (\<^verbatim>\<open>String.prototype.replace\<close>, \<^verbatim>\<open>RegExp.prototype.test\<close>)\<close>




text \<open>
  The children of the element that \<^verbatim>\<open>span.innerHTML = ...\<close> builds from the replaced
  text: text nodes and \<^verbatim>\<open>mark\<close> elements, the latter with the text they show. An empty
  run of text gives no node. The texts are taken to be free of \<^verbatim>\<open><\<close>, \<^verbatim>\<open>>\<close> and
  \<^verbatim>\<open>&\<close>, which \<^verbatim>\<open>innerHTML\<close> would read as markup, and the terms free of \<^verbatim>\<open>$\<close>.
\<close>

datatype piece = Plain string | Mark string




subsection \<open>The capped annotators (\<^verbatim>\<open>TS13.js\<close> second script, \<^verbatim>\<open>part_003\<close> second script)\<close>











subsection \<open>Annotation of a paragraph (\<^verbatim>\<open>TS14(imp).js\<close>)\<close>





text \<open>
  The document: a text node, or an element with its tag name, its attributes and its
  children.
\<close>

datatype node = Text string | Elem string "(string \<times> string) list" "node list"








subsection \<open>Verified terms and annotation (\<^verbatim>\<open>part_005\<close>)\<close>







text \<open>
  Lines 132-147 (first script), the body of the \<^verbatim>\<open>exec\<close> loop for one match
  \<^verbatim>\<open>(match.index, match[0])\<close>. The loop state is \<^verbatim>\<open>lastIndex\<close>, \<^verbatim>\<open>hasChanges\<close>, the
  children appended to \<^verbatim>\<open>fragment\<close> so far, and the \<^verbatim>\<open>Set\<close> \<^verbatim>\<open>highlightedOnce\<close>.
  Here \<^verbatim>\<open>createTextNode\<close> makes a text node also for an empty string.
\<close>

definition annotateStep :: "string list \<Rightarrow> string \<Rightarrow> nat \<times> string \<Rightarrow>
    nat \<times> bool \<times> piece list \<times> string list \<Rightarrow> nat \<times> bool \<times> piece list \<times> string list" where
  "annotateStep finalTermsToHighlight originalText found st =
     (case st of (lastIndex, hasChanges, fragment, highlightedOnce) \<Rightarrow>
        (case found of (index, term) \<Rightarrow>
           if term \<in> set finalTermsToHighlight \<and> term \<notin> set highlightedOnce then
             (index + length term, True,
              fragment @ [Plain (slice originalText lastIndex index), Mark term],
              setAdd highlightedOnce term)
           else st))"

text \<open>
  Lines 120-153, the body of \<^verbatim>\<open>textNodesInParagraphs.forEach\<close> for one text node. A
  node comes with the flag that says whether
  \<^verbatim>\<open>node.parentElement.closest('A, SUP, CITE, MARK')\<close> finds an element. The pattern
  is the alternation of the terms in the order of the \<^verbatim>\<open>Set\<close>, with the flag \<^verbatim>\<open>g\<close>.
  The result is the list of nodes that stand in the place of the text node afterwards
  (the text node itself when nothing was decorated) and \<^verbatim>\<open>highlightedOnce\<close>; \<open>None\<close>
  stands for a loop that does not end.
\<close>

definition annotateNode :: "string list \<Rightarrow> string list \<Rightarrow> bool \<times> string \<Rightarrow>
    (piece list \<times> string list) option" where
  "annotateNode finalTermsToHighlight highlightedOnce node =
     (case node of (skipped, originalText) \<Rightarrow>
        if skipped then Some ([Plain originalText], highlightedOnce)
        else
          (case execAll False finalTermsToHighlight False 0 originalText of
             None \<Rightarrow> None
           | Some found \<Rightarrow>
               (case fold (annotateStep finalTermsToHighlight originalText) found
                       (0, False, [], highlightedOnce) of
                  (lastIndex, hasChanges, fragment, highlightedOnce') \<Rightarrow>
                    if hasChanges then
                      Some (fragment @ [Plain (slice originalText lastIndex (length originalText))],
                            highlightedOnce')
                    else Some ([Plain originalText], highlightedOnce'))))"

text \<open>
  Lines 115-153: the loop over the text nodes, in document order, from an empty
  \<^verbatim>\<open>highlightedOnce\<close>; nothing is done when \<^verbatim>\<open>finalTermsToHighlight\<close> is empty.
\<close>

fun annotateNodes :: "string list \<Rightarrow> string list \<Rightarrow> (bool \<times> string) list \<Rightarrow> piece list list option" where
  "annotateNodes finalTermsToHighlight highlightedOnce [] = Some []"
| "annotateNodes finalTermsToHighlight highlightedOnce (node # nodes) =
     (case annotateNode finalTermsToHighlight highlightedOnce node of
        None \<Rightarrow> None
      | Some (pieces, highlightedOnce') \<Rightarrow>
          map_option ((#) pieces) (annotateNodes finalTermsToHighlight highlightedOnce' nodes))"

definition annotate :: "string list \<Rightarrow> (bool \<times> string) list \<Rightarrow> piece list list option" where
  "annotate finalTermsToHighlight nodes =
     (if finalTermsToHighlight = [] then Some (map (\<lambda>node. [Plain (snd node)]) nodes)
      else annotateNodes finalTermsToHighlight [] nodes)"

text \<open>
  What a list of pieces shows: its text, and its marks, each with the offset at which it
  starts in that text.
\<close>

definition pieceText :: "piece \<Rightarrow> string" where
  "pieceText p = (case p of Plain t \<Rightarrow> t | Mark t \<Rightarrow> t)"

definition textOf :: "piece list \<Rightarrow> string" where
  "textOf ps = concat (map pieceText ps)"

fun marksAt :: "nat \<Rightarrow> piece list \<Rightarrow> (nat \<times> string) list" where
  "marksAt pos [] = []"
| "marksAt pos (Plain t # ps) = marksAt (pos + length t) ps"
| "marksAt pos (Mark t # ps) = (pos, t) # marksAt (pos + length t) ps"

text \<open>
  The wording of the specification: of the occurrences \<open>(offset, term)\<close> in a region,
  those whose term has not been decorated before, neither in an earlier region (\<open>seen\<close>)
  nor earlier in this one.
\<close>

fun firstOccurrences :: "string list \<Rightarrow> (nat \<times> string) list \<Rightarrow> (nat \<times> string) list" where
  "firstOccurrences seen [] = []"
| "firstOccurrences seen ((i, t) # occs) =
     (if t \<in> set seen then firstOccurrences seen occs
      else (i, t) # firstOccurrences (seen @ [t]) occs)"

text \<open>
  The occurrences of the approved terms in a region: the matches of the pattern, none in
  a region that is passed over; and the marks of a whole document as the specification
  has them, region by region in document order.
\<close>

definition occurrences :: "string list \<Rightarrow> bool \<times> string \<Rightarrow> (nat \<times> string) list" where
  "occurrences approved node =
     (if fst node then []
      else case execAll False approved False 0 (snd node) of None \<Rightarrow> [] | Some found \<Rightarrow> found)"

fun onceEach :: "string list \<Rightarrow> string list \<Rightarrow> (bool \<times> string) list \<Rightarrow> (nat \<times> string) list list" where
  "onceEach approved seen [] = []"
| "onceEach approved seen (node # nodes) =
     firstOccurrences seen (occurrences approved node) #
     onceEach approved (seen @ map snd (firstOccurrences seen (occurrences approved node))) nodes"

text \<open>
  Matches lie in the text from left to right without overlap, each showing the text at
  its place.
\<close>

fun placed :: "string \<Rightarrow> nat \<Rightarrow> (nat \<times> string) list \<Rightarrow> bool" where
  "placed text i [] = True"
| "placed text i ((j, m) # ms) =
     (i \<le> j \<and> j + length m \<le> length text \<and> slice text j (j + length m) = m \<and>
      placed text (j + length m) ms)"

subsection \<open>Example inputs\<close>

text \<open>
  The candidates \<^verbatim>\<open>Paris\<close> at 0..5, \<^verbatim>\<open>Paris Commune\<close> at 0..13 and \<^verbatim>\<open>Commune\<close>
  at 6..13: the first is accepted, the other two overlap it and are dropped.
\<close>

definition c1_matches :: "match list" where
  "c1_matches =
     [\<lparr>m_start = 6, m_end = 13, m_text = ''Commune''\<rparr>,
      \<lparr>m_start = 0, m_end = 5, m_text = ''Paris''\<rparr>,
      \<lparr>m_start = 0, m_end = 13, m_text = ''Paris Commune''\<rparr>,
      \<lparr>m_start = 20, m_end = 26, m_text = ''France''\<rparr>]"

text \<open>Forty-one distinct one-letter candidates in one text node: two requests.\<close>

definition c10_nodeMatches :: "string list list" where
  "c10_nodeMatches = [map (\<lambda>c. [c]) ''abcdefghijklmnopqrstuvwxyzABCDEFGHIJKLMNO'']"








text \<open>
  Three batches of the editor helper; the request of the second one fails. The registry
  knows every title it is asked for.
\<close>

definition c5_batch1 :: "item list" where
  "c5_batch1 = [\<lparr>word = ''Paris'', position = 0\<rparr>, \<lparr>word = ''France'', position = 24\<rparr>]"

definition c5_batch2 :: "item list" where
  "c5_batch2 = [\<lparr>word = ''Lyon'', position = 40\<rparr>]"

definition c5_batch3 :: "item list" where
  "c5_batch3 = [\<lparr>word = ''Seine'', position = 52\<rparr>]"

definition allExist :: "item list \<Rightarrow> fetched" where
  "allExist batch = Inr (map (\<lambda>i. \<lparr>p_title = word i, p_pageid = Some 1\<rparr>) batch)"

definition c5_rounds :: "(item list \<times> fetched) list" where
  "c5_rounds = [(c5_batch1, allExist c5_batch1), (c5_batch2, Inl ''timeout''),
                (c5_batch3, allExist c5_batch3)]"




text \<open>Scenario 1 of the specification: one region, the approved terms \<^verbatim>\<open>Paris\<close> and \<^verbatim>\<open>France\<close>.\<close>

definition scenario1 :: "(bool \<times> string) list" where
  "scenario1 = [(False, ''Paris is the capital of France. France has many regions.'')]"




subsection \<open>Lemmas on the overlap filter\<close>

abbreviation separated :: "match \<Rightarrow> match \<Rightarrow> bool" where
  "separated a b \<equiv> m_end a \<le> m_start b"

lemma not_overlaps_separated:
  assumes "\<not> overlaps mt vs" and "v \<in> set vs" and "m_start v \<le> m_start mt"
  shows "separated v mt"
proof -
  from assms(1,2) have "\<not> (m_start mt \<ge> m_start v \<and> m_start mt < m_end v)"
    by (auto simp: overlaps_def list_ex_iff)
  with assms(3) show ?thesis by simp
qed

lemma acceptLoop_separated:
  assumes "sorted_wrt separated vs"
    and "sorted (map m_start ms)"
    and "\<forall>v \<in> set vs. \<forall>m \<in> set ms. m_start v \<le> m_start m"
  shows "sorted_wrt separated (acceptLoop vs ms)"
  using assms
proof (induction ms arbitrary: vs)
  case Nil
  then show ?case by simp
next
  case (Cons mt rest)
  show ?case
  proof (cases "overlaps mt vs")
    case True
    have "sorted_wrt separated (acceptLoop vs rest)"
      using Cons.prems by (intro Cons.IH) auto
    with True show ?thesis by simp
  next
    case False
    have sep: "\<forall>v \<in> set vs. separated v mt"
      using False Cons.prems(3) by (auto intro: not_overlaps_separated)
    have "sorted_wrt separated (vs @ [mt])"
      using Cons.prems(1) sep by (simp add: sorted_wrt_append)
    moreover have "sorted (map m_start rest)"
      using Cons.prems(2) by simp
    moreover have "\<forall>v \<in> set (vs @ [mt]). \<forall>m \<in> set rest. m_start v \<le> m_start m"
      using Cons.prems(2,3) by auto
    ultimately have "sorted_wrt separated (acceptLoop (vs @ [mt]) rest)"
      by (rule Cons.IH)
    with False show ?thesis by simp
  qed
qed

lemma validMatchesOf_separated: "sorted_wrt separated (validMatchesOf ms)"
  unfolding validMatchesOf_def
  by (rule acceptLoop_separated) simp_all

lemma acceptLoop_subseq: "subseq (acceptLoop vs ms) (vs @ ms)"
proof (induction ms arbitrary: vs)
  case Nil
  then show ?case by simp
next
  case (Cons mt rest)
  show ?case
  proof (cases "overlaps mt vs")
    case True
    have "subseq (acceptLoop vs rest) (vs @ rest)" by (rule Cons.IH)
    also have "subseq (vs @ rest) (vs @ mt # rest)"
      by (simp add: subseq_Cons' subseq_append')
    finally show ?thesis using True by simp
  next
    case False
    have "subseq (acceptLoop (vs @ [mt]) rest) ((vs @ [mt]) @ rest)" by (rule Cons.IH)
    with False show ?thesis by simp
  qed
qed

lemma validMatchesOf_subseq: "subseq (validMatchesOf ms) (sort_key m_start ms)"
  unfolding validMatchesOf_def using acceptLoop_subseq[of "[]"] by simp

subsection \<open>C1: accepted matches never overlap\<close>

text \<open>
  Claim C1. For every list of candidate matches found in a text region, the matches the
  annotator accepts are pairwise non-overlapping: for any two accepted matches \<open>A\<close> and
  \<open>B\<close> (at different places of the accepted list), \<open>A.end \<le> B.start\<close> or
  \<open>B.end \<le> A.start\<close>. The candidates are visited in ascending order of their start
  offset, and the accepted list is a subsequence of that ordered list: a candidate is
  either pushed or dropped, nothing else happens to it.
\<close>

theorem validMatches_no_overlap:
  assumes "i < length (validMatchesOf ms)" and "j < length (validMatchesOf ms)" and "i \<noteq> j"
  shows "(m_end (validMatchesOf ms ! i) \<le> m_start (validMatchesOf ms ! j) \<or>
          m_end (validMatchesOf ms ! j) \<le> m_start (validMatchesOf ms ! i)) \<and>
         subseq (validMatchesOf ms) (sort_key m_start ms) \<and>
         sorted (map m_start (sort_key m_start ms))"
proof -
  have sep: "sorted_wrt separated (validMatchesOf ms)"
    by (rule validMatchesOf_separated)
  have "m_end (validMatchesOf ms ! i) \<le> m_start (validMatchesOf ms ! j) \<or>
        m_end (validMatchesOf ms ! j) \<le> m_start (validMatchesOf ms ! i)"
  proof (cases "i < j")
    case True
    then show ?thesis using sep assms(2) by (simp add: sorted_wrt_iff_nth_less)
  next
    case False
    with assms(3) have "j < i" by simp
    then show ?thesis using sep assms(1) by (simp add: sorted_wrt_iff_nth_less)
  qed
  then show ?thesis
    using validMatchesOf_subseq by simp
qed

lemma c1_matches_valid:
  "validMatchesOf c1_matches =
     [\<lparr>m_start = 0, m_end = 5, m_text = ''Paris''\<rparr>,
      \<lparr>m_start = 6, m_end = 13, m_text = ''Commune''\<rparr>,
      \<lparr>m_start = 20, m_end = 26, m_text = ''France''\<rparr>]"
  by (simp add: validMatchesOf_def c1_matches_def overlaps_def)

theorem validMatches_no_overlap_witness:
  "(0::nat) < length (validMatchesOf c1_matches) \<and> (2::nat) < length (validMatchesOf c1_matches) \<and>
   (0::nat) \<noteq> 2 \<and>
   m_end (validMatchesOf c1_matches ! 0) \<le> m_start (validMatchesOf c1_matches ! 2)"
proof -
  have a: "(0::nat) < length (validMatchesOf c1_matches)"
    and b: "(2::nat) < length (validMatchesOf c1_matches)"
    by (simp_all add: c1_matches_valid)
  have c: "(0::nat) \<noteq> 2" by simp
  from validMatches_no_overlap[OF a b c] a b show ?thesis
    by (simp add: c1_matches_valid)
qed

subsection \<open>Lemmas on strings, sets and slices\<close>


lemma slices_total:
  assumes "0 < sz"
  shows "\<exists>bs. slices sz i xs = Some bs \<and> concat bs = drop i xs"
  using assms
proof (induction sz i xs rule: slices.induct)
  case (1 sz i xs)
  show ?case
  proof (cases "i < length xs")
    case True
    from "1.IH"[OF True] "1.prems"
    obtain bs where bs: "slices sz (i + sz) xs = Some bs" "concat bs = drop (i + sz) xs"
      by auto
    have "take sz (drop i xs) @ drop (i + sz) xs = drop i xs"
      by (metis add.commute append_take_drop_id drop_drop)
    with True "1.prems" bs show ?thesis by (subst slices.simps) simp
  next
    case False
    then show ?thesis by (subst slices.simps) simp
  qed
qed

lemma distinct_setAdd: "distinct xs \<Longrightarrow> distinct (setAdd xs x)"
  by (simp add: setAdd_def)


lemma distinct_concat_disjoint:
  assumes "distinct (concat bs)" and "i < j" and "j < length bs"
  shows "set (bs ! i) \<inter> set (bs ! j) = {}"
proof -
  have split: "bs = take j bs @ bs ! j # drop (Suc j) bs"
    using assms(3) by (rule id_take_nth_drop)
  have "distinct (concat (take j bs) @ concat (bs ! j # drop (Suc j) bs))"
    using assms(1) by (subst (asm) split) simp
  then have disj: "set (concat (take j bs)) \<inter> set (bs ! j) = {}"
    by auto
  have "bs ! i \<in> set (take j bs)"
    using assms(2,3) by (metis in_set_conv_nth length_take min.absorb2 nat_less_le nth_take)
  then have "set (bs ! i) \<subseteq> set (concat (take j bs))" by auto
  with disj show ?thesis by blast
qed

subsection \<open>C7: self-exclusion\<close>

lemma distinct_addWords: "distinct ws \<Longrightarrow> distinct (addWords a ws found)"
  unfolding addWords_def
  by (induction found arbitrary: ws) (simp_all add: distinct_setAdd)



text \<open>
  On the article \<^verbatim>\<open>Paris Commune\<close> the candidate \<^verbatim>\<open>Paris\<close> is excluded, and so is
  the title itself; \<^verbatim>\<open>France\<close> and \<^verbatim>\<open>Lyon\<close> are submitted.
\<close>

lemma self_exclusion_run:
  "verificationRequests ''Paris Commune'' [''Paris'', ''France'', ''Paris'', ''Lyon'']
     [''Paris Commune''] [] = Some [[''France'', ''Lyon'']]"
  by code_simp


subsection \<open>C10: each candidate is submitted once\<close>

lemma distinct_fold_addCandidate: "distinct cs \<Longrightarrow> distinct (fold addCandidate ms cs)"
  by (induction ms arbitrary: cs) (simp_all add: addCandidate_def Let_def distinct_setAdd)

lemma distinct_collectCandidates: "distinct (collectCandidates nm)"
proof -
  have "distinct cs \<Longrightarrow> distinct (fold (\<lambda>ms cs. fold addCandidate ms cs) nm cs)" for cs
    by (induction nm arbitrary: cs) (simp_all add: distinct_fold_addCandidate)
  then show ?thesis by (simp add: collectCandidates_def)
qed

text \<open>
  Claim C10. The candidates are accumulated in a \<^verbatim>\<open>Set\<close>, so the list of terms
  submitted for verification in one run holds each surface form at most once: the
  requests of a run, laid end to end, are the list \<^verbatim>\<open>toCheck\<close>, that list has no
  repeated element, and two different requests of the run share no term.
\<close>

theorem candidates_submitted_once:
  "\<exists>reqs. apiRequests nodeMatches linkTexts = Some reqs \<and>
          concat reqs = toCheck nodeMatches linkTexts \<and>
          distinct (concat reqs) \<and>
          (\<forall>i j. i < j \<and> j < length reqs \<longrightarrow> set (reqs ! i) \<inter> set (reqs ! j) = {})"
proof -
  obtain reqs where r: "slices API_BATCH 0 (toCheck nodeMatches linkTexts) = Some reqs"
      "concat reqs = toCheck nodeMatches linkTexts"
    using slices_total[of API_BATCH 0 "toCheck nodeMatches linkTexts"]
    by (auto simp: API_BATCH_def)
  have "distinct (toCheck nodeMatches linkTexts)"
    using distinct_collectCandidates by (simp add: toCheck_def Let_def)
  then have d: "distinct (concat reqs)"
    unfolding r(2) .
  then have "\<forall>i j. i < j \<and> j < length reqs \<longrightarrow> set (reqs ! i) \<inter> set (reqs ! j) = {}"
    using distinct_concat_disjoint by blast
  with r d show ?thesis
    unfolding apiRequests_def by blast
qed

lemma c10_run: "map_option length (apiRequests c10_nodeMatches []) = Some 2"
  by code_simp

theorem candidates_submitted_once_witness:
  "\<exists>reqs. apiRequests c10_nodeMatches [] = Some reqs \<and> (0::nat) < 1 \<and> 1 < length reqs \<and>
          set (reqs ! 0) \<inter> set (reqs ! 1) = {}"
proof -
  from candidates_submitted_once[of c10_nodeMatches "[]"]
  obtain reqs where r: "apiRequests c10_nodeMatches [] = Some reqs"
    and d: "\<forall>i j. i < j \<and> j < length reqs \<longrightarrow> set (reqs ! i) \<inter> set (reqs ! j) = {}"
    by blast
  from r c10_run have len: "length reqs = 2" by simp
  with d have "set (reqs ! 0) \<inter> set (reqs ! 1) = {}" by simp
  with r len show ?thesis by simp
qed

subsection \<open>Lemmas on \<^verbatim>\<open>checkPagesExist\<close>\<close>














subsection \<open>C6: the rate limiter and its callers\<close>






subsection \<open>C3: cache reads and expiry\<close>









subsection \<open>C5: a failed batch\<close>








text \<open>Batch 2 of 3 fails: the suggestions are those of batches 1 and 3.\<close>

lemma c5_run:
  "fst (analyzeText c5_rounds \<lparr>h_wikiTerms = [], h_errors = []\<rparr>) = c5_batch1 @ c5_batch3 \<and>
   h_errors (snd (analyzeText c5_rounds \<lparr>h_wikiTerms = [], h_errors = []\<rparr>)) =
     [''Error checking pages:timeout'']"
  by code_simp

subsection \<open>C9: the cap on highlights\<close>









subsection \<open>C2: existing decorations and links\<close>





subsection \<open>Lemmas on the \<^verbatim>\<open>exec\<close> loop\<close>

lemma placed_mono: "i \<le> i' \<Longrightarrow> placed text i' ms \<Longrightarrow> placed text i ms"
  by (cases ms) auto

lemma altHere_Some:
  assumes "altHere ignoreCase terms pw rest = Some t"
  shows "t \<in> set terms" and "literalHere ignoreCase t rest"
  using assms by (auto simp: altHere_def find_Some_iff split: if_splits)

lemma execAll_placed:
  assumes "execAll ignoreCase terms pw i rest = Some ms" and "rest = drop i text"
    and "i \<le> length text"
  shows "placed text i ms"
  using assms
proof (induction ignoreCase terms pw i rest arbitrary: ms rule: execAll.induct)
  case (1 ignoreCase terms pw i rest)
  show ?case
  proof (cases "altHere ignoreCase terms pw rest")
    case None
    show ?thesis
    proof (cases rest)
      case Nil
      with None "1.prems"(1) show ?thesis
        by (subst (asm) execAll.simps) simp
    next
      case (Cons c cs)
      with None "1.prems"(1) have run: "execAll ignoreCase terms (isWordChar c) (Suc i) cs = Some ms"
        by (subst (asm) execAll.simps) simp
      have cs: "cs = drop (Suc i) text"
        using Cons "1.prems"(2) by (metis drop_Suc drop_drop list.sel(3) plus_1_eq_Suc tl_drop)
      have "Suc i \<le> length text"
        using Cons "1.prems"(2,3) by (metis Suc_leI drop_eq_Nil2 le_neq_implies_less list.distinct(1))
      from "1.IH"(1)[OF None Cons run cs this] show ?thesis
        by (rule placed_mono[rotated]) simp
    qed
  next
    case (Some t)
    have lit: "literalHere ignoreCase t rest"
      by (rule altHere_Some(2)[OF Some])
    then have len: "length t \<le> length rest"
      by (simp add: literalHere_def)
    show ?thesis
    proof (cases "t = []")
      case True
      with Some "1.prems"(1) show ?thesis
        by (subst (asm) execAll.simps) simp
    next
      case False
      let ?m = "take (length t) rest"
      from Some False "1.prems"(1) obtain ms' where ms: "ms = (i, ?m) # ms'"
        and run: "execAll ignoreCase terms (isWordChar (last ?m)) (i + length t)
                    (drop (length t) rest) = Some ms'"
        by (subst (asm) execAll.simps) auto
      have lm: "length ?m = length t"
        using len by simp
      have d: "drop (length t) rest = drop (i + length t) text"
        using "1.prems"(2) by (simp add: add.commute)
      have b: "i + length t \<le> length text"
        using len "1.prems"(2,3) by simp
      have "placed text (i + length t) ms'"
        by (rule "1.IH"(2)[OF Some False run d b])
      moreover have "slice text i (i + length ?m) = ?m"
        using "1.prems"(2) lm by (simp add: slice_def)
      ultimately show ?thesis
        using ms lm b by simp
    qed
  qed
qed

lemma execAll_terms:
  assumes "execAll False terms pw i rest = Some ms"
  shows "snd ` set ms \<subseteq> set terms"
  using assms
proof (induction False terms pw i rest arbitrary: ms rule: execAll.induct)
  case (1 terms pw i rest)
  show ?case
  proof (cases "altHere False terms pw rest")
    case None
    show ?thesis
    proof (cases rest)
      case Nil
      with None "1.prems" show ?thesis
        by (subst (asm) execAll.simps) simp
    next
      case (Cons c cs)
      with None "1.prems" have "execAll False terms (isWordChar c) (Suc i) cs = Some ms"
        by (subst (asm) execAll.simps) simp
      from "1.hyps"(1)[OF None Cons this] show ?thesis .
    qed
  next
    case (Some t)
    have t: "t \<in> set terms" and lit: "take (length t) rest = t"
      using altHere_Some[OF Some] by (simp_all add: literalHere_def)
    show ?thesis
    proof (cases "t = []")
      case True
      with Some "1.prems" show ?thesis
        by (subst (asm) execAll.simps) simp
    next
      case False
      from Some False "1.prems" obtain ms' where ms: "ms = (i, take (length t) rest) # ms'"
        and run: "execAll False terms (isWordChar (last (take (length t) rest))) (i + length t)
                    (drop (length t) rest) = Some ms'"
        by (subst (asm) execAll.simps) auto
      from "1.hyps"(2)[OF Some False run] ms t lit show ?thesis by simp
    qed
  qed
qed

lemma execAll_total:
  assumes "[] \<notin> set terms"
  shows "\<exists>ms. execAll ignoreCase terms pw i rest = Some ms"
  using assms
proof (induction ignoreCase terms pw i rest rule: execAll.induct)
  case (1 ignoreCase terms pw i rest)
  show ?case
  proof (cases "altHere ignoreCase terms pw rest")
    case None
    show ?thesis
    proof (cases rest)
      case Nil
      with None show ?thesis by (subst execAll.simps) simp
    next
      case (Cons c cs)
      from "1.IH"(1)[OF None Cons "1.prems"] None Cons show ?thesis
        by (subst execAll.simps) simp
    qed
  next
    case (Some t)
    with altHere_Some(1)[OF Some] "1.prems" have ne: "t \<noteq> []" by auto
    from "1.IH"(2)[OF Some ne "1.prems"] Some ne show ?thesis
      by (subst execAll.simps) auto
  qed
qed

subsection \<open>C8: each term is decorated once\<close>

lemma textOf_append: "textOf (xs @ ys) = textOf xs @ textOf ys"
  by (simp add: textOf_def)

lemma marksAt_append:
  "marksAt pos (xs @ ys) = marksAt pos xs @ marksAt (pos + length (textOf xs)) ys"
proof (induction xs arbitrary: pos)
  case Nil
  then show ?case by (simp add: textOf_def)
next
  case (Cons p xs)
  then show ?case
    by (cases p) (simp_all add: textOf_def pieceText_def add.assoc)
qed

lemma annotateStep_fold:
  assumes "fold (annotateStep final text) ms (li, hc, frag, once) = (li', hc', frag', once')"
    and "placed text li ms" and "li \<le> length text" and "snd ` set ms \<subseteq> set final"
    and "textOf frag = take li text"
  shows "textOf frag' = take li' text \<and> li' \<le> length text \<and>
         marksAt 0 frag' = marksAt 0 frag @ firstOccurrences once ms \<and>
         once' = once @ map snd (firstOccurrences once ms) \<and>
         hc' = (hc \<or> firstOccurrences once ms \<noteq> [])"
  using assms
proof (induction ms arbitrary: li hc frag once)
  case Nil
  then show ?case by simp
next
  case (Cons jm ms)
  obtain j m where jm: "jm = (j, m)" by (cases jm)
  have pl: "li \<le> j" "j + length m \<le> length text" "slice text j (j + length m) = m"
      "placed text (j + length m) ms"
    using Cons.prems(2) jm by simp_all
  have fin: "m \<in> set final" "snd ` set ms \<subseteq> set final"
    using Cons.prems(4) jm by simp_all
  show ?case
  proof (cases "m \<in> set once")
    case True
    then have step: "annotateStep final text jm (li, hc, frag, once) = (li, hc, frag, once)"
      by (simp add: annotateStep_def jm)
    have "placed text li ms"
      using pl(1,4) by (intro placed_mono[of li "j + length m"]) simp_all
    moreover have "fold (annotateStep final text) ms (li, hc, frag, once) = (li', hc', frag', once')"
      using Cons.prems(1) step by simp
    ultimately show ?thesis
      using Cons.IH[of li hc frag once] Cons.prems(3,5) fin(2) True jm by simp
  next
    case False
    let ?frag = "frag @ [Plain (slice text li j), Mark m]"
    have step: "annotateStep final text jm (li, hc, frag, once) =
                  (j + length m, True, ?frag, once @ [m])"
      using False fin(1) by (simp add: annotateStep_def jm setAdd_def)
    have e1: "take li text @ slice text li j = take j text"
      using pl(1) by (simp add: slice_def) (metis le_add_diff_inverse take_add)
    have "take (length m) (drop j text) = m"
      using pl(3) by (simp add: slice_def)
    then have e2: "take j text @ m = take (j + length m) text"
      by (simp add: take_add)
    have "textOf ?frag = (textOf frag @ slice text li j) @ m"
      by (simp add: textOf_def pieceText_def)
    then have tx: "textOf ?frag = take (j + length m) text"
      using e1 e2 Cons.prems(5) by simp
    have lenfrag: "length (textOf frag) = li"
      using Cons.prems(3,5) by simp
    have lensl: "length (slice text li j) = j - li"
      using pl(1,2) by (simp add: slice_def)
    have mk: "marksAt 0 ?frag = marksAt 0 frag @ [(j, m)]"
      using lenfrag lensl pl(1) by (simp add: marksAt_append)
    have f2: "fold (annotateStep final text) ms (j + length m, True, ?frag, once @ [m]) =
                (li', hc', frag', once')"
      using Cons.prems(1) step by simp
    from Cons.IH[OF f2 pl(4) pl(2) fin(2) tx]
    have "textOf frag' = take li' text \<and> li' \<le> length text \<and>
          marksAt 0 frag' = marksAt 0 ?frag @ firstOccurrences (once @ [m]) ms \<and>
          once' = (once @ [m]) @ map snd (firstOccurrences (once @ [m]) ms) \<and>
          hc' = (True \<or> firstOccurrences (once @ [m]) ms \<noteq> [])"
      by simp
    with mk False jm show ?thesis by simp
  qed
qed

lemma annotateNode_spec:
  assumes "annotateNode final once node = Some (pieces, once')"
  shows "textOf pieces = snd node \<and>
         marksAt 0 pieces = firstOccurrences once (occurrences final node) \<and>
         once' = once @ map snd (firstOccurrences once (occurrences final node))"
proof (cases "fst node")
  case True
  with assms show ?thesis
    by (cases node) (auto simp: annotateNode_def occurrences_def textOf_def pieceText_def)
next
  case False
  obtain txt0 where node: "node = (False, txt0)"
    using False by (cases node) auto
  from assms node obtain ms where ms: "execAll False final False 0 txt0 = Some ms"
    by (auto simp: annotateNode_def split: option.splits)
  obtain li hc frag onc where f: "fold (annotateStep final txt0) ms (0, False, [], once) = (li, hc, frag, onc)"
    by (cases "fold (annotateStep final txt0) ms (0, False, [], once)") auto
  have pl: "placed txt0 0 ms"
    by (rule execAll_placed[OF ms]) simp_all
  have tm: "snd ` set ms \<subseteq> set final"
    by (rule execAll_terms[OF ms])
  from annotateStep_fold[OF f pl _ tm]
  have inv: "textOf frag = take li txt0" "li \<le> length txt0"
      "marksAt 0 frag = firstOccurrences once ms" "onc = once @ map snd (firstOccurrences once ms)"
      "hc = (firstOccurrences once ms \<noteq> [])"
    by (simp_all add: textOf_def)
  have occ: "occurrences final node = ms"
    by (simp add: occurrences_def node ms)
  show ?thesis
  proof (cases hc)
    case True
    with assms node ms f have p: "pieces = frag @ [Plain (slice txt0 li (length txt0))]" and o: "once' = onc"
      by (simp_all add: annotateNode_def)
    have "textOf pieces = txt0"
      using inv(1,2) by (simp add: p textOf_append textOf_def pieceText_def slice_def)
    moreover have "marksAt 0 pieces = firstOccurrences once ms"
      using inv(3) by (simp add: p marksAt_append)
    ultimately show ?thesis
      using o inv(4) occ node by simp
  next
    case False
    with assms node ms f have p: "pieces = [Plain txt0]" and o: "once' = onc"
      by (simp_all add: annotateNode_def)
    with False inv(4,5) occ node show ?thesis
      by (simp add: textOf_def pieceText_def)
  qed
qed

lemma annotateNode_total:
  assumes "[] \<notin> set final"
  shows "\<exists>r. annotateNode final once node = Some r"
proof (cases node)
  case (Pair skipped txt0)
  from execAll_total[OF assms, of False False 0 txt0] obtain ms
    where "execAll False final False 0 txt0 = Some ms" by blast
  with Pair show ?thesis
    by (simp add: annotateNode_def split: prod.splits)
qed

lemma annotateNodes_spec:
  assumes "[] \<notin> set final"
  shows "\<exists>out. annotateNodes final once nodes = Some out \<and>
               map textOf out = map snd nodes \<and>
               map (marksAt 0) out = onceEach final once nodes"
proof (induction nodes arbitrary: once)
  case Nil
  then show ?case by simp
next
  case (Cons node nodes)
  from annotateNode_total[OF assms, of once node] obtain pieces once'
    where n: "annotateNode final once node = Some (pieces, once')" by fastforce
  note s = annotateNode_spec[OF n]
  from Cons.IH[of once'] obtain out where out: "annotateNodes final once' nodes = Some out"
    "map textOf out = map snd nodes" "map (marksAt 0) out = onceEach final once' nodes"
    by blast
  have "annotateNodes final once (node # nodes) = Some (pieces # out)"
    using n out(1) by simp
  with s out(2,3) show ?case by simp
qed

lemma firstOccurrences_distinct:
  "distinct (map snd (firstOccurrences seen occs)) \<and>
   set (map snd (firstOccurrences seen occs)) \<inter> set seen = {}"
proof (induction occs arbitrary: seen)
  case Nil
  then show ?case by simp
next
  case (Cons x occs)
  obtain i t where x: "x = (i, t)" by (cases x)
  from Cons[of seen] Cons[of "seen @ [t]"] x show ?case by auto
qed

lemma onceEach_distinct:
  "distinct (map snd (concat (onceEach approved seen nodes))) \<and>
   set (map snd (concat (onceEach approved seen nodes))) \<inter> set seen = {}"
proof (induction nodes arbitrary: seen)
  case Nil
  then show ?case by simp
next
  case (Cons node nodes)
  define f where "f = firstOccurrences seen (occurrences approved node)"
  define r where "r = concat (onceEach approved (seen @ map snd f) nodes)"
  have a: "distinct (map snd f)" "set (map snd f) \<inter> set seen = {}"
    using firstOccurrences_distinct[of seen "occurrences approved node"] by (simp_all add: f_def)
  have b: "distinct (map snd r)" "set (map snd r) \<inter> set (seen @ map snd f) = {}"
    using Cons[of "seen @ map snd f"] by (simp_all add: r_def)
  have c: "concat (onceEach approved seen (node # nodes)) = f @ r"
    by (simp add: f_def r_def)
  have "distinct (map snd f @ map snd r)"
    using a(1) b by auto
  moreover have "set (map snd f @ map snd r) \<inter> set seen = {}"
    using a(2) b(2) by auto
  ultimately show ?case
    unfolding c by simp
qed

lemma firstOccurrences_first:
  "x \<in> set (firstOccurrences seen occs) \<longleftrightarrow>
     (\<exists>n<length occs. occs ! n = x \<and> snd x \<notin> set seen \<and> snd x \<notin> snd ` set (take n occs))"
proof (induction occs arbitrary: seen)
  case Nil
  then show ?case by simp
next
  case (Cons y occs)
  obtain i t where y: "y = (i, t)" by (cases y)
  show ?case
  proof (cases "t \<in> set seen")
    case True
    then show ?thesis
      using Cons[of seen] y by (auto simp: Ex_less_Suc2)
  next
    case False
    then show ?thesis
      using Cons[of "seen @ [t]"] y by (auto simp: Ex_less_Suc2)
  qed
qed

lemma execAll_no_terms: "execAll ignoreCase [] pw i rest = Some []"
proof (induction rest arbitrary: pw i)
  case Nil
  then show ?case by (subst execAll.simps) (simp add: altHere_def)
next
  case (Cons c cs)
  then show ?case by (subst execAll.simps) (simp add: altHere_def)
qed

lemma onceEach_no_terms: "onceEach [] seen nodes = map (\<lambda>node. []) nodes"
  by (induction nodes arbitrary: seen) (simp_all add: occurrences_def execAll_no_terms)

text \<open>
  Claim C8. With non-empty approved terms the pass ends, every region keeps its text,
  and the marks of the document are those of the specification's wording: in each
  region, in document order, the occurrences of approved terms whose term has not been
  decorated before, each at the offset of the occurrence. No term is marked twice in the
  document; every later occurrence stays plain text.
\<close>

theorem highlight_each_term_once:
  assumes "[] \<notin> set approved"
  shows "\<exists>out. annotate approved nodes = Some out \<and>
               map textOf out = map snd nodes \<and>
               map (marksAt 0) out = onceEach approved [] nodes \<and>
               distinct (map snd (concat (map (marksAt 0) out)))"
proof (cases "approved = []")
  case True
  let ?out = "map (\<lambda>node. [Plain (snd node)]) nodes"
  have a: "annotate approved nodes = Some ?out"
    using True by (simp add: annotate_def)
  have b: "map textOf ?out = map snd nodes"
    by (simp add: textOf_def pieceText_def)
  have c: "map (marksAt 0) ?out = onceEach approved [] nodes"
    using True by (simp add: onceEach_no_terms)
  have d: "distinct (map snd (concat (map (marksAt 0) ?out)))"
    unfolding c using onceEach_distinct[of approved "[]" nodes] by simp
  from a b c d show ?thesis by blast
next
  case False
  from annotateNodes_spec[OF assms, of "[]" nodes] obtain out
    where out: "annotateNodes approved [] nodes = Some out" "map textOf out = map snd nodes"
      "map (marksAt 0) out = onceEach approved [] nodes"
    by blast
  have "distinct (map snd (concat (map (marksAt 0) out)))"
    unfolding out(3) using onceEach_distinct[of approved "[]" nodes] by simp
  with out False show ?thesis by (simp add: annotate_def)
qed

text \<open>
  Scenario 1: the first \<^verbatim>\<open>Paris\<close> and the first \<^verbatim>\<open>France\<close> are marked, the second
  \<^verbatim>\<open>France\<close> is left plain.
\<close>

lemma scenario1_run:
  "annotate [''Paris'', ''France''] scenario1 =
     Some [[Plain [], Mark ''Paris'', Plain '' is the capital of '', Mark ''France'',
            Plain ''. France has many regions.'']]"
  by code_simp

lemma scenario1_marks:
  "onceEach [''Paris'', ''France''] [] scenario1 = [[(0, ''Paris''), (24, ''France'')]]"
  by code_simp

theorem highlight_each_term_once_witness:
  "[] \<notin> set [''Paris'', ''France''] \<and>
   (\<exists>out. annotate [''Paris'', ''France''] scenario1 = Some out \<and>
          map (marksAt 0) out = [[(0, ''Paris''), (24, ''France'')]])"
proof -
  have h: "[] \<notin> set [''Paris'', ''France'']" by simp
  from highlight_each_term_once[OF h, of scenario1] scenario1_marks h
  show ?thesis by auto
qed

subsection \<open>C4: redirects\<close>










end
